theory Spec2Isabelle
  imports Complex_Main "HOL-Library.AList"
begin

section \<open>The Go rule engine of \<^verbatim>\<open>game_logic.py\<close>\<close>

text \<open>
  The class \<^verbatim>\<open>GoGame\<close> keeps a square numpy array of cell codes (0 empty, 1 black,
  2 white), a turn flag, a \<^verbatim>\<open>defaultdict(int)\<close> of prisoner counts keyed by the strings
  \<^verbatim>\<open>black\<close> and \<^verbatim>\<open>white\<close>, a stack of (board, prisoners) snapshots for undo and a log
  of board snapshots for the ko check. Every method mutates the object; the model passes
  the object as a record and returns the updated record.
\<close>

subsection \<open>Data\<close>

type_synonym coord = "int \<times> int"

text \<open>The array is indexed \<^verbatim>\<open>board[col, row]\<close>: a list of columns, each a list of cells.\<close>

type_synonym board = "int list list"

text \<open>
  A Python dict keeps its keys in insertion order; the association list keeps the same
  order, and a key occurs at most once.
\<close>

type_synonym prisoners = "(string \<times> int) list"

record go_game =
  size_n :: nat
  board :: board
  black_turn :: bool
  prisoners :: prisoners
  history :: "(board \<times> prisoners) list"
  prev_boards :: "board list"

text \<open>\<^verbatim>\<open>__init__\<close>: an all-zero board, Black to move, no prisoners, empty stacks.\<close>

definition GoGame :: "nat \<Rightarrow> go_game" where
  "GoGame n = \<lparr> size_n = n, board = replicate n (replicate n 0), black_turn = True,
     prisoners = [], history = [], prev_boards = [] \<rparr>"

subsection \<open>Array access\<close>

text \<open>
  Every index the source passes to the array has passed a bounds check or comes from the
  grid itself, so numpy's negative indices and its IndexError are never reached; reads and
  writes are modelled at natural-number positions.
\<close>

definition cell :: "board \<Rightarrow> int \<Rightarrow> int \<Rightarrow> int" where
  "cell b x y = b ! nat x ! nat y"

definition set_cell :: "board \<Rightarrow> int \<Rightarrow> int \<Rightarrow> int \<Rightarrow> board" where
  "set_cell b x y v = b[nat x := (b ! nat x)[nat y := v]]"

definition in_bounds :: "nat \<Rightarrow> int \<Rightarrow> int \<Rightarrow> bool" where
  "in_bounds n x y = (0 \<le> x \<and> x < int n \<and> 0 \<le> y \<and> y < int n)"

subsection \<open>The prisoner dictionary\<close>

text \<open>
  Reading a missing key of a \<^verbatim>\<open>defaultdict(int)\<close> inserts the key with value 0 and
  returns 0; \<^verbatim>\<open>d[k] += n\<close> reads, adds and stores.
\<close>

definition dd_get :: "prisoners \<Rightarrow> string \<Rightarrow> int \<times> prisoners" where
  "dd_get d k = (case map_of d k of Some v \<Rightarrow> (v, d) | None \<Rightarrow> (0, d @ [(k, 0)]))"

definition dd_add :: "prisoners \<Rightarrow> string \<Rightarrow> int \<Rightarrow> prisoners" where
  "dd_add d k n = (case dd_get d k of (v, d') \<Rightarrow> AList.update k (v + n) d')"

text \<open>The count a reader of the dictionary sees for a colour.\<close>

definition prisoner_count :: "prisoners \<Rightarrow> string \<Rightarrow> int" where
  "prisoner_count d k = fst (dd_get d k)"

subsection \<open>\<^verbatim>\<open>is_valid_move\<close>\<close>

definition is_valid_move :: "go_game \<Rightarrow> int \<Rightarrow> int \<Rightarrow> bool" where
  "is_valid_move g col row =
     (if col < 0 \<or> col \<ge> int (size_n g) \<or> row < 0 \<or> row \<ge> int (size_n g) then False
      else if cell (board g) col row \<noteq> 0 then False
      else True)"

subsection \<open>\<^verbatim>\<open>has_no_liberties\<close>\<close>

definition directions :: "(int \<times> int) list" where
  "directions = [(-1, 0), (1, 0), (0, -1), (0, 1)]"

text \<open>
  The inner loop of the source returns False at the first in-bounds empty neighbour;
  \<open>empty_neighbour\<close> is that test for one stone, over the four directions in the
  source's order.
\<close>

definition empty_neighbour :: "go_game \<Rightarrow> int \<Rightarrow> int \<Rightarrow> bool" where
  "empty_neighbour g x y =
     list_ex (\<lambda>(dx, dy). in_bounds (size_n g) (x + dx) (y + dy)
                \<and> cell (board g) (x + dx) (y + dy) = 0) directions"

fun has_no_liberties :: "go_game \<Rightarrow> coord list \<Rightarrow> bool" where
  "has_no_liberties g [] = True"
| "has_no_liberties g ((x, y) # grp) =
     (if empty_neighbour g x y then False else has_no_liberties g grp)"

subsection \<open>\<^verbatim>\<open>get_stone_groups\<close>\<close>

text \<open>
  The source builds the grid graph of the board with networkx, removes every node that
  does not hold a stone of the colour and returns \<^verbatim>\<open>connected_components\<close>. The library
  call is modelled by what it computes: the nodes are visited in grid order, and each
  node not yet in a component starts a breadth-first search over grid edges (two nodes
  at distance one along a single axis). A component, a Python set, is a duplicate-free
  list here.
\<close>

definition stones_of :: "nat \<Rightarrow> board \<Rightarrow> int \<Rightarrow> coord list" where
  "stones_of n b code =
     concat (map (\<lambda>x. map (\<lambda>y. (int x, int y))
                       (filter (\<lambda>y. cell b (int x) (int y) = code) [0..<n])) [0..<n])"

definition adjacent :: "coord \<Rightarrow> coord \<Rightarrow> bool" where
  "adjacent p q = (\<bar>fst p - fst q\<bar> + \<bar>snd p - snd q\<bar> = 1)"

definition touches :: "coord list \<Rightarrow> coord \<Rightarrow> bool" where
  "touches acc p = list_ex (adjacent p) acc"

function flood :: "coord list \<Rightarrow> coord list \<Rightarrow> coord list" where
  "flood acc rest =
     (if filter (touches acc) rest = [] then acc
      else flood (acc @ filter (touches acc) rest)
                 (filter (\<lambda>p. \<not> touches acc p) rest))"
  by pat_completeness auto
termination
proof (relation "measure (\<lambda>(acc, rest). length rest)")
  show "wf (measure (\<lambda>(acc, rest). length rest))" by simp
next
  fix acc rest :: "coord list"
  assume "filter (touches acc) rest \<noteq> []"
  then have "length (filter (touches acc) rest) \<noteq> 0" by simp
  moreover have "length (filter (touches acc) rest)
      + length (filter (\<lambda>p. \<not> touches acc p) rest) = length rest"
    by (rule sum_length_filter_compl)
  ultimately have "length (filter (\<lambda>p. \<not> touches acc p) rest) < length rest"
    by linarith
  then show "((acc @ filter (touches acc) rest, filter (\<lambda>p. \<not> touches acc p) rest),
      (acc, rest)) \<in> measure (\<lambda>(acc, rest). length rest)"
    by simp
qed

declare flood.simps [simp del]

function components :: "coord list \<Rightarrow> coord list list" where
  "components [] = []"
| "components (s # rest) =
     flood [s] rest # components (filter (\<lambda>p. p \<notin> set (flood [s] rest)) rest)"
  by pat_completeness auto
termination
  by (relation "measure length") (auto simp: less_Suc_eq_le)

declare components.simps(2) [simp del]

definition get_stone_groups :: "go_game \<Rightarrow> string \<Rightarrow> coord list list" where
  "get_stone_groups g color =
     (let color_code = (if color = ''black'' then 1 else 2)
      in components (stones_of (size_n g) (board g) color_code))"

text \<open>
  The edges of the grid graph between the nodes of a set: what the groups are measured
  against.
\<close>

definition linked :: "coord set \<Rightarrow> (coord \<times> coord) set" where
  "linked S = {(p, q). p \<in> S \<and> q \<in> S \<and> adjacent p q}"

subsection \<open>\<^verbatim>\<open>capture_stones\<close>\<close>

definition remove_group :: "board \<Rightarrow> coord list \<Rightarrow> board" where
  "remove_group b grp = fold (\<lambda>(x, y) b'. set_cell b' x y 0) grp b"

text \<open>
  The groups are all computed before the loop starts (\<^verbatim>\<open>list(...)\<close>); the liberty test
  of each group reads the board as the earlier iterations left it.
\<close>

definition capture_group :: "go_game \<Rightarrow> string \<Rightarrow> coord list \<Rightarrow> go_game" where
  "capture_group g self_color grp =
     g\<lparr> board := remove_group (board g) grp,
        prisoners := dd_add (prisoners g) self_color (int (length grp)) \<rparr>"

fun capture_loop :: "go_game \<Rightarrow> string \<Rightarrow> coord list list \<Rightarrow> go_game" where
  "capture_loop g self_color [] = g"
| "capture_loop g self_color (grp # grps) =
     (if has_no_liberties g grp
      then capture_loop (capture_group g self_color grp) self_color grps
      else capture_loop g self_color grps)"

definition capture_stones :: "go_game \<Rightarrow> int \<Rightarrow> int \<Rightarrow> go_game" where
  "capture_stones g col row =
     (let self_color = (if black_turn g then ''black'' else ''white'');
          other_color = (if black_turn g then ''white'' else ''black'')
      in capture_loop g self_color (get_stone_groups g other_color))"

subsection \<open>\<^verbatim>\<open>is_ko_violation\<close>, \<^verbatim>\<open>place_stone\<close>, \<^verbatim>\<open>undo_move\<close>, \<^verbatim>\<open>calculate_score\<close>\<close>

text \<open>
  Python appends at the end of a list: the newest snapshot is the last element, and
  \<^verbatim>\<open>prev_boards[-2]\<close> is the element before it.
\<close>

definition is_ko_violation :: "go_game \<Rightarrow> bool" where
  "is_ko_violation g =
     (if length (prev_boards g) \<ge> 2
      then board g = prev_boards g ! (length (prev_boards g) - 2)
      else False)"

definition snapshot :: "go_game \<Rightarrow> go_game" where
  "snapshot g = g\<lparr> history := history g @ [(board g, prisoners g)],
                   prev_boards := prev_boards g @ [board g] \<rparr>"

definition put_stone :: "go_game \<Rightarrow> int \<Rightarrow> int \<Rightarrow> go_game" where
  "put_stone g col row =
     g\<lparr> board := set_cell (board g) col row (if black_turn g then 1 else 2) \<rparr>"

definition place_stone :: "go_game \<Rightarrow> int \<Rightarrow> int \<Rightarrow> bool \<times> go_game" where
  "place_stone g col row =
     (if \<not> is_valid_move g col row then (False, g)
      else let g1 = snapshot g;
               g2 = put_stone g1 col row;
               g3 = capture_stones g2 col row
           in if is_ko_violation g3
              then (False, g3\<lparr> board := set_cell (board g3) col row 0 \<rparr>)
              else (True, g3\<lparr> black_turn := \<not> black_turn g3 \<rparr>))"

definition undo_move :: "go_game \<Rightarrow> go_game" where
  "undo_move g =
     (if history g \<noteq> []
      then g\<lparr> board := fst (last (history g)),
              prisoners := snd (last (history g)),
              history := butlast (history g),
              black_turn := \<not> black_turn g \<rparr>
      else g)"

text \<open>
  The score is a dict of an int (Black) and a float (White): line 131 adds the float 6.5
  to the int \<^verbatim>\<open>prisoners['white']\<close>. Python converts the int to a double first, rounding
  to 53 significant bits, to nearest with ties to even, and raises OverflowError when the
  rounded value does not fit a double (magnitude \<open>2 ^ 1024\<close> or more); the sum of the two
  doubles is rounded the same way. A finite double is modelled by the rational it denotes.
\<close>

datatype py_error = OverflowError

text \<open>\<^verbatim>\<open>int.bit_length\<close>: the number of binary digits of a natural number.\<close>

function bit_length :: "nat \<Rightarrow> nat" where
  "bit_length n = (if n = 0 then 0 else Suc (bit_length (n div 2)))"
  by pat_completeness auto
termination
  by (relation "measure id") auto

declare bit_length.simps [simp del]

text \<open>
  An integer rounded to 53 significant bits: below \<open>2 ^ 53\<close> in magnitude it is exact;
  otherwise the \<open>s\<close> low bits beyond the 53 leading ones are dropped and the rest goes to
  the nearer multiple of \<open>2 ^ s\<close>, to the even one on a tie.
\<close>

definition round53 :: "int \<Rightarrow> int" where
  "round53 m =
     (if \<bar>m\<bar> < 2 ^ 53 then m
      else let s = bit_length (nat \<bar>m\<bar>) - 53;
               q = m div 2 ^ s;
               r = m mod 2 ^ s;
               h = 2 ^ (s - 1)
           in (if r > h \<or> (r = h \<and> odd q) then q + 1 else q) * 2 ^ s)"

text \<open>The conversion of an int to a double; the double of an int is a whole number.\<close>

definition float_of_int :: "int \<Rightarrow> py_error + int" where
  "float_of_int w = (if 2 ^ 1024 \<le> \<bar>round53 w\<bar> then Inl OverflowError else Inr (round53 w))"

text \<open>
  The double sum of a whole-number double \<open>fw\<close> and 6.5. The exact sum is
  \<open>(2 * fw + 13) / 2\<close>, and rounding to 53 significant bits commutes with halving; the
  result is at least one half in magnitude and at most the largest double, so neither
  underflow nor overflow occurs.
\<close>

definition add_komi :: "int \<Rightarrow> rat" where
  "add_komi fw = of_int (round53 (2 * fw + 13)) / 2"

record score =
  black_score :: int
  white_score :: rat

text \<open>What lines 130 to 132 make of the two counts they read.\<close>

definition score_of :: "int \<Rightarrow> int \<Rightarrow> py_error + score" where
  "score_of b w =
     (case float_of_int w of
        Inl e \<Rightarrow> Inl e
      | Inr fw \<Rightarrow> Inr \<lparr> black_score = b, white_score = add_komi fw \<rparr>)"

text \<open>
  Reading the two keys inserts the missing ones into the prisoner dictionary, before the
  sum is computed: the state is updated also when the sum raises.
\<close>

definition calculate_score :: "go_game \<Rightarrow> (py_error + score) \<times> go_game" where
  "calculate_score g =
     (case dd_get (prisoners g) ''black'' of (b, d1) \<Rightarrow>
      case dd_get d1 ''white'' of (w, d2) \<Rightarrow>
        (score_of b w, g\<lparr> prisoners := d2 \<rparr>))"

subsection \<open>Sequences of calls and the positions used as examples\<close>

text \<open>
  \<open>play\<close> makes the calls of a list one after the other, whatever they return;
  \<open>play_all\<close> is defined only when every call returns True.
\<close>

fun play :: "go_game \<Rightarrow> coord list \<Rightarrow> go_game" where
  "play g [] = g"
| "play g ((col, row) # ms) = play (snd (place_stone g col row)) ms"

fun play_all :: "go_game \<Rightarrow> coord list \<Rightarrow> go_game option" where
  "play_all g [] = Some g"
| "play_all g ((col, row) # ms) =
     (case place_stone g col row of
        (True, g') \<Rightarrow> play_all g' ms
      | (False, g') \<Rightarrow> None)"

text \<open>
  The ko shape on a 5x5 board: Black on (0,1), (1,0), (1,2) and (2,1), White on (2,0),
  (3,1) and (2,2); White's eighth move at (1,1) captures the black stone on (2,1).
\<close>

definition ko_moves :: "coord list" where
  "ko_moves = [(0, 1), (2, 0), (1, 0), (3, 1), (1, 2), (2, 2), (2, 1), (1, 1)]"

definition ko_position :: go_game where
  "ko_position = play (GoGame 5) ko_moves"

text \<open>
  A single point surrounded by White: White on (0,1), (1,0), (1,2) and (2,1), Black
  elsewhere, Black to move; (1,1) is empty and has no empty neighbour.
\<close>

definition eye_moves :: "coord list" where
  "eye_moves = [(4, 4), (0, 1), (4, 3), (1, 0), (4, 2), (1, 2), (3, 4), (2, 1)]"

definition eye_position :: go_game where
  "eye_position = play (GoGame 5) eye_moves"

text \<open>A game is well formed when its board is a square of its size.\<close>

definition wf_board :: "nat \<Rightarrow> board \<Rightarrow> bool" where
  "wf_board n b = (length b = n \<and> list_all (\<lambda>c. length c = n) b)"

definition wf_game :: "go_game \<Rightarrow> bool" where
  "wf_game g = (wf_board (size_n g) (board g)
     \<and> list_all (\<lambda>s. wf_board (size_n g) (fst s)) (history g))"

definition own_code :: "go_game \<Rightarrow> int" where
  "own_code g = (if black_turn g then 1 else 2)"

definition other_code :: "go_game \<Rightarrow> int" where
  "other_code g = (if black_turn g then 2 else 1)"

definition own_name :: "go_game \<Rightarrow> string" where
  "own_name g = (if black_turn g then ''black'' else ''white'')"

definition other_name :: "go_game \<Rightarrow> string" where
  "other_name g = (if black_turn g then ''white'' else ''black'')"

text \<open>The state of \<^verbatim>\<open>place_stone\<close> after the snapshot and the placement, and after the captures.\<close>

definition placed :: "go_game \<Rightarrow> int \<Rightarrow> int \<Rightarrow> go_game" where
  "placed g col row = put_stone (snapshot g) col row"

definition resolved :: "go_game \<Rightarrow> int \<Rightarrow> int \<Rightarrow> go_game" where
  "resolved g col row = capture_stones (placed g col row) col row"

text \<open>
  The number of opponent stones the capture phase of a call takes off the board: those
  on the board after the placement less those left after the captures.
\<close>

definition captured :: "go_game \<Rightarrow> int \<Rightarrow> int \<Rightarrow> int" where
  "captured g col row =
     int (length (stones_of (size_n g) (board (placed g col row)) (other_code g)))
     - int (length (stones_of (size_n g) (board (resolved g col row)) (other_code g)))"

text \<open>
  A white group of two stones in the corner, on (0,0) and (0,1), with Black on (1,0) and
  (1,1) and Black to move: a black stone on (0,2) takes its last liberty.
\<close>

definition corner_moves :: "coord list" where
  "corner_moves = [(1, 0), (0, 0), (1, 1), (0, 1)]"

definition corner_position :: go_game where
  "corner_position = play (GoGame 5) corner_moves"

section \<open>Properties\<close>

subsection \<open>What the capture loop leaves alone\<close>

lemma capture_loop_frame:
  "size_n (capture_loop g sc gs) = size_n g
   \<and> black_turn (capture_loop g sc gs) = black_turn g
   \<and> history (capture_loop g sc gs) = history g
   \<and> prev_boards (capture_loop g sc gs) = prev_boards g"
  by (induction gs arbitrary: g) (auto simp: capture_group_def)

lemma capture_stones_frame:
  "size_n (capture_stones g col row) = size_n g
   \<and> black_turn (capture_stones g col row) = black_turn g
   \<and> history (capture_stones g col row) = history g
   \<and> prev_boards (capture_stones g col row) = prev_boards g"
  by (simp add: capture_stones_def Let_def capture_loop_frame)

lemma resolved_frame:
  "size_n (resolved g col row) = size_n g
   \<and> black_turn (resolved g col row) = black_turn g
   \<and> history (resolved g col row) = history g @ [(board g, prisoners g)]
   \<and> prev_boards (resolved g col row) = prev_boards g @ [board g]"
  by (simp add: resolved_def placed_def capture_stones_frame put_stone_def snapshot_def)

lemma place_stone_invalid:
  "\<not> is_valid_move g col row \<Longrightarrow> place_stone g col row = (False, g)"
  by (simp add: place_stone_def)

lemma place_stone_valid:
  "is_valid_move g col row \<Longrightarrow>
   place_stone g col row =
     (if is_ko_violation (resolved g col row)
      then (False, (resolved g col row)\<lparr> board := set_cell (board (resolved g col row)) col row 0 \<rparr>)
      else (True, (resolved g col row)\<lparr> black_turn := \<not> black_turn g \<rparr>))"
  by (simp add: place_stone_def Let_def resolved_def placed_def capture_stones_frame
      put_stone_def snapshot_def)

lemma is_valid_move_iff:
  "is_valid_move g col row \<longleftrightarrow> in_bounds (size_n g) col row \<and> cell (board g) col row = 0"
  by (auto simp: is_valid_move_def in_bounds_def)

lemma place_stone_True:
  assumes "place_stone g col row = (True, g')"
  shows "g' = (resolved g col row)\<lparr> black_turn := \<not> black_turn g \<rparr>"
proof (cases "is_valid_move g col row")
  case True
  with assms show ?thesis by (simp add: place_stone_valid split: if_splits)
next
  case False
  with assms show ?thesis by (simp add: place_stone_invalid)
qed

subsection \<open>Liberties\<close>

lemma empty_neighbour_iff:
  "empty_neighbour g x y \<longleftrightarrow>
     (\<exists>(dx, dy) \<in> set directions.
        in_bounds (size_n g) (x + dx) (y + dy) \<and> cell (board g) (x + dx) (y + dy) = 0)"
  by (simp add: empty_neighbour_def list_ex_iff)

lemma has_no_liberties_all:
  "has_no_liberties g grp \<longleftrightarrow> (\<forall>(x, y) \<in> set grp. \<not> empty_neighbour g x y)"
  by (induction grp) (auto split: if_splits)

subsection \<open>Turn and rejection\<close>

lemma place_stone_turn:
  "black_turn (snd (place_stone g col row)) =
     (if fst (place_stone g col row) then \<not> black_turn g else black_turn g)"
  by (cases "is_valid_move g col row")
     (simp_all add: place_stone_invalid place_stone_valid resolved_frame)

lemma repeat_rejected:
  "\<not> is_valid_move g col row \<Longrightarrow> ((\<lambda>s. snd (place_stone s col row)) ^^ k) g = g"
  by (induction k) (simp_all add: place_stone_invalid)

subsection \<open>Undo of accepted moves\<close>

lemma undo_after_success:
  assumes "place_stone g col row = (True, g')"
  shows "undo_move (g'\<lparr> prev_boards := pb \<rparr>) = g\<lparr> prev_boards := pb \<rparr>"
  unfolding place_stone_True [OF assms]
  by (rule go_game.equality) (simp_all add: undo_move_def resolved_frame)

lemma undo_play_all:
  "play_all g ms = Some g' \<Longrightarrow>
   (undo_move ^^ length ms) g' = g\<lparr> prev_boards := prev_boards g' \<rparr>"
proof (induction ms arbitrary: g)
  case Nil
  then show ?case by simp
next
  case (Cons m ms)
  obtain col row where m: "m = (col, row)" by (cases m)
  from Cons.prems m obtain g1 where
    p: "place_stone g col row = (True, g1)" and r: "play_all g1 ms = Some g'"
    by (auto split: prod.splits bool.splits)
  have "(undo_move ^^ length ms) g' = g1\<lparr> prev_boards := prev_boards g' \<rparr>"
    by (rule Cons.IH [OF r])
  then show ?case
    by (simp add: undo_after_success [OF p])
qed

subsection \<open>Boards: reading and writing cells\<close>

lemma wf_board_nth:
  "wf_board n b \<Longrightarrow> i < n \<Longrightarrow> length (b ! i) = n"
  by (simp add: wf_board_def list_all_length)

lemma wf_set_cell:
  assumes "wf_board n b"
  shows "wf_board n (set_cell b x y v)"
proof (cases "nat x < length b")
  case True
  with assms show ?thesis
    by (auto simp: wf_board_def set_cell_def list_all_length nth_list_update)
next
  case False
  then have "b[nat x := (b ! nat x)[nat y := v]] = b"
    by (intro list_update_beyond) simp
  with assms show ?thesis
    by (simp add: set_cell_def)
qed

lemma cell_set_cell:
  assumes "wf_board n b" and "in_bounds n x y" and "in_bounds n x' y'"
  shows "cell (set_cell b x y v) x' y' = (if x' = x \<and> y' = y then v else cell b x' y')"
proof -
  have "nat x < length b" "nat x' < length b" "nat y < length (b ! nat x)"
    using assms by (auto simp: wf_board_def in_bounds_def list_all_length)
  moreover have "nat x' = nat x \<longleftrightarrow> x' = x" "nat y' = nat y \<longleftrightarrow> y' = y"
    using assms by (auto simp: in_bounds_def)
  ultimately show ?thesis
    by (auto simp: cell_def set_cell_def nth_list_update)
qed

lemma wf_remove_group: "wf_board n b \<Longrightarrow> wf_board n (remove_group b grp)"
  unfolding remove_group_def
  by (induction grp arbitrary: b) (auto simp: wf_set_cell)

lemma cell_remove_group:
  assumes "wf_board n b" and "\<forall>p \<in> set grp. in_bounds n (fst p) (snd p)" and "in_bounds n x y"
  shows "cell (remove_group b grp) x y = (if (x, y) \<in> set grp then 0 else cell b x y)"
  using assms unfolding remove_group_def
proof (induction grp arbitrary: b)
  case Nil
  then show ?case by simp
next
  case (Cons p grp)
  obtain px py where p: "p = (px, py)" by (cases p)
  have w: "wf_board n (set_cell b px py 0)" using Cons.prems(1) by (rule wf_set_cell)
  have ib: "in_bounds n px py" using Cons.prems(2) p by simp
  have "cell (fold (\<lambda>(x, y) b'. set_cell b' x y 0) grp (set_cell b px py 0)) x y =
      (if (x, y) \<in> set grp then 0 else cell (set_cell b px py 0) x y)"
    using Cons.IH [OF w _ Cons.prems(3)] Cons.prems(2) by simp
  then show ?case
    using cell_set_cell [OF Cons.prems(1) ib Cons.prems(3)] by (auto simp: p)
qed

lemma in_stones_of:
  "(x, y) \<in> set (stones_of n b code) \<longleftrightarrow> in_bounds n x y \<and> cell b x y = code"
proof
  assume "(x, y) \<in> set (stones_of n b code)"
  then show "in_bounds n x y \<and> cell b x y = code"
    by (auto simp: stones_of_def in_bounds_def)
next
  assume a: "in_bounds n x y \<and> cell b x y = code"
  then have "nat x < n" "nat y < n" "int (nat x) = x" "int (nat y) = y"
    by (auto simp: in_bounds_def)
  with a show "(x, y) \<in> set (stones_of n b code)"
    unfolding stones_of_def by (auto intro!: bexI [of _ "nat x"] image_eqI [of _ _ "nat y"])
qed

lemma distinct_grid:
  "distinct xs \<Longrightarrow> distinct ys \<Longrightarrow>
   distinct (concat (map (\<lambda>x. map (\<lambda>y. (int x, int y)) (filter (P x) ys)) xs))"
proof (induction xs)
  case Nil
  show ?case by simp
next
  case (Cons x xs)
  have "distinct (map (\<lambda>y. (int x, int y)) (filter (P x) ys))"
    using Cons.prems(2) by (simp add: distinct_map inj_on_def)
  with Cons show ?case by auto
qed

lemma distinct_stones_of: "distinct (stones_of n b code)"
  unfolding stones_of_def by (rule distinct_grid) simp_all

subsection \<open>Groups: the components partition the stones\<close>

lemma flood_subset: "set (flood acc rest) \<subseteq> set acc \<union> set rest"
proof (induction acc rest rule: flood.induct)
  case (1 acc rest)
  show ?case
  proof (cases "filter (touches acc) rest = []")
    case True
    then show ?thesis by (subst flood.simps) simp
  next
    case False
    from "1.IH" [OF False] False show ?thesis
      by (subst flood.simps) auto
  qed
qed

lemma flood_superset: "set acc \<subseteq> set (flood acc rest)"
proof (induction acc rest rule: flood.induct)
  case (1 acc rest)
  show ?case
  proof (cases "filter (touches acc) rest = []")
    case True
    then show ?thesis by (subst flood.simps) simp
  next
    case False
    from "1.IH" [OF False] False show ?thesis
      by (subst flood.simps) auto
  qed
qed

lemma flood_distinct:
  "distinct acc \<Longrightarrow> distinct rest \<Longrightarrow> set acc \<inter> set rest = {} \<Longrightarrow> distinct (flood acc rest)"
proof (induction acc rest rule: flood.induct)
  case (1 acc rest)
  show ?case
  proof (cases "filter (touches acc) rest = []")
    case True
    with "1.prems" show ?thesis by (subst flood.simps) simp
  next
    case False
    have "distinct (flood (acc @ filter (touches acc) rest) (filter (\<lambda>p. \<not> touches acc p) rest))"
      using "1.prems" by (intro "1.IH" [OF False]) auto
    with False show ?thesis by (subst flood.simps) simp
  qed
qed

lemma components_set: "set (concat (components xs)) = set xs"
proof (induction xs rule: components.induct)
  case 1
  show ?case by simp
next
  case (2 s rest)
  have "s \<in> set (flood [s] rest)" using flood_superset [of "[s]" rest] by simp
  moreover have "set (flood [s] rest) \<subseteq> insert s (set rest)"
    using flood_subset [of "[s]" rest] by simp
  ultimately show ?case
    using "2.IH" by (subst components.simps) auto
qed

lemma components_distinct: "distinct xs \<Longrightarrow> distinct (concat (components xs))"
proof (induction xs rule: components.induct)
  case 1
  show ?case by simp
next
  case (2 s rest)
  have "distinct (flood [s] rest)"
    using "2.prems" by (intro flood_distinct) auto
  moreover have "distinct (concat (components (filter (\<lambda>p. p \<notin> set (flood [s] rest)) rest)))"
    using "2.prems" by (intro "2.IH") simp
  moreover have "set (flood [s] rest)
      \<inter> set (concat (components (filter (\<lambda>p. p \<notin> set (flood [s] rest)) rest))) = {}"
    unfolding components_set by auto
  ultimately show ?case
    by (subst components.simps) (simp del: set_concat)
qed

lemma components_nonempty: "grp \<in> set (components xs) \<Longrightarrow> grp \<noteq> []"
proof (induction xs rule: components.induct)
  case 1
  then show ?case by simp
next
  case (2 s rest)
  have "s \<in> set (flood [s] rest)" using flood_superset [of "[s]" rest] by simp
  then have "flood [s] rest \<noteq> []" by auto
  with 2 show ?case by (auto simp: components.simps(2))
qed

lemma adjacent_sym: "adjacent p q \<longleftrightarrow> adjacent q p"
  by (auto simp: adjacent_def)

lemma touches_iff: "touches acc p \<longleftrightarrow> (\<exists>q \<in> set acc. adjacent p q)"
  by (simp add: touches_def list_ex_iff)

lemma flood_closed:
  "p \<in> set (flood acc rest) \<Longrightarrow> q \<in> set rest \<Longrightarrow> adjacent q p \<Longrightarrow> q \<in> set (flood acc rest)"
proof (induction acc rest rule: flood.induct)
  case (1 acc rest)
  show ?case
  proof (cases "filter (touches acc) rest = []")
    case True
    then have f: "flood acc rest = acc" by (subst flood.simps) simp
    with "1.prems" have "touches acc q" by (auto simp: touches_iff)
    with "1.prems"(2) True show ?thesis by (auto simp: filter_empty_conv)
  next
    case False
    then have f: "flood acc rest
        = flood (acc @ filter (touches acc) rest) (filter (\<lambda>p. \<not> touches acc p) rest)"
      by (subst flood.simps) simp
    show ?thesis
    proof (cases "touches acc q")
      case True
      then have "q \<in> set (acc @ filter (touches acc) rest)" using "1.prems"(2) by simp
      then show ?thesis
        unfolding f using flood_superset by blast
    next
      case nt: False
      then have "q \<in> set (filter (\<lambda>p. \<not> touches acc p) rest)" using "1.prems"(2) by simp
      then show ?thesis
        using "1.IH" [OF False] "1.prems"(1,3) unfolding f by blast
    qed
  qed
qed

lemma flood_connected:
  "p \<in> set (flood acc rest) \<Longrightarrow> \<exists>a \<in> set acc. (a, p) \<in> (linked (set (flood acc rest)))\<^sup>*"
proof (induction acc rest rule: flood.induct)
  case (1 acc rest)
  show ?case
  proof (cases "filter (touches acc) rest = []")
    case True
    then have f: "flood acc rest = acc" by (subst flood.simps) simp
    with "1.prems" show ?thesis by auto
  next
    case False
    let ?new = "filter (touches acc) rest"
    have f: "flood acc rest = flood (acc @ ?new) (filter (\<lambda>p. \<not> touches acc p) rest)"
      using False by (subst flood.simps) simp
    from "1.IH" [OF False] "1.prems" obtain a where
      a: "a \<in> set (acc @ ?new)" and c: "(a, p) \<in> (linked (set (flood acc rest)))\<^sup>*"
      unfolding f by blast
    show ?thesis
    proof (cases "a \<in> set acc")
      case True
      with c show ?thesis by blast
    next
      case na: False
      with a have "touches acc a" by simp
      then obtain b where b: "b \<in> set acc" and ad: "adjacent a b" by (auto simp: touches_iff)
      have "a \<in> set (flood acc rest)" "b \<in> set (flood acc rest)"
        using a b flood_superset [of "acc @ ?new"] flood_superset [of acc rest] unfolding f by auto
      then have "(b, a) \<in> linked (set (flood acc rest))"
        using ad by (simp add: linked_def adjacent_sym)
      from this c have "(b, p) \<in> (linked (set (flood acc rest)))\<^sup>*"
        by (rule converse_rtrancl_into_rtrancl)
      with b show ?thesis by blast
    qed
  qed
qed

lemma components_subset: "grp \<in> set (components xs) \<Longrightarrow> set grp \<subseteq> set xs"
  using components_set [of xs] by auto

lemma components_closed:
  "grp \<in> set (components xs) \<Longrightarrow> p \<in> set grp \<Longrightarrow> q \<in> set xs \<Longrightarrow> adjacent p q
   \<Longrightarrow> q \<in> set grp"
proof (induction xs arbitrary: grp rule: components.induct)
  case 1
  then show ?case by simp
next
  case (2 s rest)
  let ?F = "flood [s] rest"
  let ?rest' = "filter (\<lambda>p. p \<notin> set ?F) rest"
  have sF: "s \<in> set ?F" using flood_superset [of "[s]" rest] by simp
  from "2.prems"(1) consider "grp = ?F" | "grp \<in> set (components ?rest')"
    by (auto simp: components.simps(2))
  then show ?case
  proof cases
    case 1
    show ?thesis
    proof (cases "q = s")
      case True
      with sF 1 show ?thesis by simp
    next
      case False
      with "2.prems"(3) have "q \<in> set rest" by simp
      then show ?thesis
        using flood_closed [of p "[s]" rest q] "2.prems"(2,4) 1 by (simp add: adjacent_sym)
    qed
  next
    case 2
    have pr: "p \<in> set ?rest'" using components_subset [OF 2] "2.prems"(2) by blast
    have "q \<notin> set ?F"
    proof
      assume "q \<in> set ?F"
      then have "p \<in> set ?F"
        using flood_closed [of q "[s]" rest p] pr "2.prems"(4) by simp
      with pr show False by simp
    qed
    with sF "2.prems"(3) have "q \<in> set ?rest'" by auto
    then show ?thesis using "2.IH" [OF 2 "2.prems"(2) _ "2.prems"(4)] by blast
  qed
qed

lemma components_connected:
  "grp \<in> set (components xs) \<Longrightarrow> p \<in> set grp \<Longrightarrow> q \<in> set grp
   \<Longrightarrow> (p, q) \<in> (linked (set grp))\<^sup>*"
proof (induction xs arbitrary: grp rule: components.induct)
  case 1
  then show ?case by simp
next
  case (2 s rest)
  let ?F = "flood [s] rest"
  let ?rest' = "filter (\<lambda>p. p \<notin> set ?F) rest"
  from "2.prems"(1) consider "grp = ?F" | "grp \<in> set (components ?rest')"
    by (auto simp: components.simps(2))
  then show ?case
  proof cases
    case 1
    have sym: "sym (linked (set grp))" by (auto simp: sym_def linked_def adjacent_sym)
    have "(s, p) \<in> (linked (set grp))\<^sup>*" "(s, q) \<in> (linked (set grp))\<^sup>*"
      using flood_connected [of p "[s]" rest] flood_connected [of q "[s]" rest] "2.prems"(2,3) 1
      by simp_all
    moreover from this(1) have "(p, s) \<in> (linked (set grp))\<^sup>*"
      using sym by (metis sym_rtrancl symD)
    ultimately show ?thesis by (meson rtrancl_trans)
  next
    case 2
    then show ?thesis using "2.IH" "2.prems"(2,3) by blast
  qed
qed

lemma linked_mono: "S \<subseteq> T \<Longrightarrow> linked S \<subseteq> linked T"
  by (auto simp: linked_def)

text \<open>
  The groups are the classes of the stones of a colour under reachability along grid
  edges between stones of that colour.
\<close>

lemma components_classes:
  assumes "grp \<in> set (components xs)" and "p \<in> set grp"
  shows "q \<in> set grp \<longleftrightarrow> (p, q) \<in> (linked (set xs))\<^sup>*"
proof
  assume "q \<in> set grp"
  then have "(p, q) \<in> (linked (set grp))\<^sup>*"
    using components_connected [OF assms] by blast
  then show "(p, q) \<in> (linked (set xs))\<^sup>*"
    using rtrancl_mono [OF linked_mono [OF components_subset [OF assms(1)]]] by blast
next
  assume "(p, q) \<in> (linked (set xs))\<^sup>*"
  then show "q \<in> set grp"
  proof (induction rule: rtrancl_induct)
    case base
    show ?case by (rule assms(2))
  next
    case (step y z)
    then have "z \<in> set xs" "adjacent y z" by (simp_all add: linked_def)
    with step.IH show ?case using components_closed [OF assms(1)] by blast
  qed
qed

lemma get_stone_groups_classes:
  assumes "grp \<in> set (get_stone_groups g color)" and "p \<in> set grp"
  shows "q \<in> set grp \<longleftrightarrow>
     (p, q) \<in> (linked (set (stones_of (size_n g) (board g) (if color = ''black'' then 1 else 2))))\<^sup>*"
  using assms by (intro components_classes) (simp add: get_stone_groups_def)

subsection \<open>The capture loop\<close>

lemma prisoner_count_dd_add:
  "prisoner_count (dd_add d k n) k' = (if k' = k then prisoner_count d k + n else prisoner_count d k')"
  by (auto simp: prisoner_count_def dd_add_def dd_get_def update_conv' split: option.splits)

lemma group_cells:
  assumes "grp \<in> set (get_stone_groups g color)" and "p \<in> set grp"
  shows "in_bounds (size_n g) (fst p) (snd p)
     \<and> cell (board g) (fst p) (snd p) = (if color = ''black'' then 1 else 2)"
proof -
  let ?xs = "stones_of (size_n g) (board g) (if color = ''black'' then 1 else 2)"
  have "p \<in> set (concat (components ?xs))"
    using assms by (auto simp: get_stone_groups_def)
  then have "(fst p, snd p) \<in> set ?xs" by (simp only: components_set prod.collapse)
  then show ?thesis by (simp only: in_stones_of)
qed

lemma groups_distinct: "distinct (concat (get_stone_groups g color))"
  by (simp add: get_stone_groups_def components_distinct distinct_stones_of)

lemma group_distinct: "grp \<in> set (get_stone_groups g color) \<Longrightarrow> distinct grp"
  using groups_distinct [of g color] by (simp add: distinct_concat_iff)

lemma liberties_mono:
  assumes "size_n g' = size_n g"
    and "\<And>x y. in_bounds (size_n g) x y \<Longrightarrow> cell (board g) x y = 0 \<Longrightarrow> cell (board g') x y = 0"
    and "\<not> has_no_liberties g grp"
  shows "\<not> has_no_liberties g' grp"
proof -
  from assms(3) obtain x y where p: "(x, y) \<in> set grp" and e: "empty_neighbour g x y"
    by (auto simp: has_no_liberties_all)
  from e obtain dx dy where d: "(dx, dy) \<in> set directions"
    and b: "in_bounds (size_n g) (x + dx) (y + dy)" and z: "cell (board g) (x + dx) (y + dy) = 0"
    by (auto simp: empty_neighbour_iff)
  have "cell (board g') (x + dx) (y + dy) = 0" using assms(2) [OF b z] .
  with d b have "empty_neighbour g' x y"
    unfolding empty_neighbour_iff assms(1) by blast
  with p show ?thesis by (auto simp: has_no_liberties_all)
qed

lemma capture_loop_none:
  "\<forall>grp \<in> set gs. \<not> has_no_liberties g grp \<Longrightarrow> capture_loop g sc gs = g"
  by (induction gs) auto

lemma capture_group_alive:
  assumes "wf_board (size_n g) (board g)"
    and "\<forall>p \<in> set grp. in_bounds (size_n g) (fst p) (snd p)"
    and "\<not> has_no_liberties g a"
  shows "\<not> has_no_liberties (capture_group g sc grp) a"
proof (rule liberties_mono [OF _ _ assms(3)])
  show "size_n (capture_group g sc grp) = size_n g" by (simp add: capture_group_def)
next
  fix x y
  assume "in_bounds (size_n g) x y" and "cell (board g) x y = 0"
  then show "cell (board (capture_group g sc grp)) x y = 0"
    using cell_remove_group [OF assms(1) assms(2)] by (simp add: capture_group_def)
qed

lemma capture_loop_one:
  assumes "wf_board (size_n g) (board g)"
    and "\<forall>a \<in> set gs. \<forall>p \<in> set a. in_bounds (size_n g) (fst p) (snd p)"
    and "filter (has_no_liberties g) gs = [grp]"
  shows "capture_loop g sc gs = capture_group g sc grp"
  using assms(2,3)
proof (induction gs)
  case Nil
  then show ?case by simp
next
  case (Cons a gs)
  show ?case
  proof (cases "has_no_liberties g a")
    case True
    with Cons.prems(2) have a: "a = grp" and r: "\<forall>c \<in> set gs. \<not> has_no_liberties g c"
      by (simp_all add: filter_empty_conv)
    have ib: "\<forall>p \<in> set grp. in_bounds (size_n g) (fst p) (snd p)"
      using Cons.prems(1) a by simp
    have "\<forall>c \<in> set gs. \<not> has_no_liberties (capture_group g sc grp) c"
      using r capture_group_alive [OF assms(1) ib] by blast
    then have "capture_loop (capture_group g sc grp) sc gs = capture_group g sc grp"
      by (rule capture_loop_none)
    with True a show ?thesis by simp
  next
    case False
    with Cons show ?thesis by simp
  qed
qed

lemma capture_group_cell:
  assumes "wf_board (size_n g) (board g)"
    and "\<forall>p \<in> set grp. in_bounds (size_n g) (fst p) (snd p)"
    and "in_bounds (size_n g) x y"
  shows "cell (board (capture_group g sc grp)) x y = (if (x, y) \<in> set grp then 0 else cell (board g) x y)"
  using cell_remove_group [OF assms] by (simp add: capture_group_def)

lemma capture_group_wf:
  "wf_board (size_n g) (board g) \<Longrightarrow>
   wf_board (size_n (capture_group g sc grp)) (board (capture_group g sc grp))"
  by (simp add: capture_group_def wf_remove_group)

lemma capture_loop_wf:
  "wf_board (size_n g) (board g) \<Longrightarrow>
   wf_board (size_n g) (board (capture_loop g sc gs))"
proof (induction gs arbitrary: g)
  case Nil
  then show ?case by simp
next
  case (Cons a gs)
  have "size_n (capture_group g sc a) = size_n g" by (simp add: capture_group_def)
  with Cons.IH [of "capture_group g sc a"] Cons.IH [of g] Cons.prems capture_group_wf [of g sc a]
  show ?case by simp
qed

text \<open>A cell outside every group of the list is not touched by the loop.\<close>

lemma capture_loop_outside:
  assumes "wf_board (size_n g) (board g)"
    and "\<forall>a \<in> set gs. \<forall>p \<in> set a. in_bounds (size_n g) (fst p) (snd p)"
    and "in_bounds (size_n g) x y"
    and "\<forall>a \<in> set gs. (x, y) \<notin> set a"
  shows "cell (board (capture_loop g sc gs)) x y = cell (board g) x y"
  using assms
proof (induction gs arbitrary: g)
  case Nil
  then show ?case by simp
next
  case (Cons a gs)
  show ?case
  proof (cases "has_no_liberties g a")
    case True
    have s: "size_n (capture_group g sc a) = size_n g" by (simp add: capture_group_def)
    have ib: "\<forall>p \<in> set a. in_bounds (size_n g) (fst p) (snd p)" using Cons.prems(2) by simp
    have "cell (board (capture_loop (capture_group g sc a) sc gs)) x y
        = cell (board (capture_group g sc a)) x y"
      using Cons.prems capture_group_wf [OF Cons.prems(1), of sc a]
      by (intro Cons.IH) (simp_all add: s)
    also have "\<dots> = cell (board g) x y"
      using capture_group_cell [OF Cons.prems(1) ib Cons.prems(3)] Cons.prems(4) by simp
    finally show ?thesis using True by simp
  next
    case False
    with Cons show ?thesis by simp
  qed
qed

lemma stones_of_remove_group:
  assumes "wf_board n b" and "set grp \<subseteq> set (stones_of n b code)" and "code \<noteq> 0"
  shows "set (stones_of n (remove_group b grp) code) = set (stones_of n b code) - set grp"
proof -
  have ib: "\<forall>p \<in> set grp. in_bounds n (fst p) (snd p)"
    using assms(2) in_stones_of [of _ _ n b code] by (metis prod.collapse subsetD)
  have "(x, y) \<in> set (stones_of n (remove_group b grp) code)
      \<longleftrightarrow> (x, y) \<in> set (stones_of n b code) - set grp" for x y
    using cell_remove_group [OF assms(1) ib, of x y] assms(3)
    by (auto simp: in_stones_of)
  then show ?thesis by (auto simp del: Diff_iff)
qed

lemma count_remove_group:
  assumes "wf_board n b" and "set grp \<subseteq> set (stones_of n b code)" and "code \<noteq> 0"
    and "distinct grp"
  shows "length (stones_of n (remove_group b grp) code) + length grp = length (stones_of n b code)"
proof -
  have "card (set (stones_of n b code) - set grp) + card (set grp) = card (set (stones_of n b code))"
    using assms(2) by (simp add: card_Diff_subset card_mono)
  then show ?thesis
    using stones_of_remove_group [OF assms(1,2,3)] assms(4)
      distinct_card [OF distinct_stones_of, of n b code]
      distinct_card [OF distinct_stones_of, of n "remove_group b grp" code]
    by (simp add: distinct_card)
qed

text \<open>
  Over pairwise disjoint groups of stones of one colour, the loop adds to the prisoner
  count exactly the number of stones of that colour it takes off the board.
\<close>

lemma capture_loop_count:
  assumes "wf_board (size_n g) (board g)"
    and "distinct (concat gs)"
    and "\<forall>a \<in> set gs. set a \<subseteq> set (stones_of (size_n g) (board g) code)"
    and "code \<noteq> 0"
  shows "prisoner_count (prisoners (capture_loop g sc gs)) sc
       + int (length (stones_of (size_n g) (board (capture_loop g sc gs)) code))
     = prisoner_count (prisoners g) sc + int (length (stones_of (size_n g) (board g) code))"
  using assms(1,2,3)
proof (induction gs arbitrary: g)
  case Nil
  then show ?case by simp
next
  case (Cons a gs)
  show ?case
  proof (cases "has_no_liberties g a")
    case True
    let ?g1 = "capture_group g sc a"
    have s: "size_n ?g1 = size_n g" by (simp add: capture_group_def)
    have sub: "set a \<subseteq> set (stones_of (size_n g) (board g) code)" using Cons.prems(3) by simp
    have da: "distinct a" and dg: "distinct (concat gs)"
      and dj: "set a \<inter> set (concat gs) = {}"
      using Cons.prems(2) by (simp_all del: set_concat)
    have w1: "wf_board (size_n ?g1) (board ?g1)" using Cons.prems(1) by (rule capture_group_wf)
    have st: "set (stones_of (size_n g) (board ?g1) code)
        = set (stones_of (size_n g) (board g) code) - set a"
      using stones_of_remove_group [OF Cons.prems(1) sub assms(4)] by (simp add: capture_group_def)
    have r: "\<forall>c \<in> set gs. set c \<subseteq> set (stones_of (size_n ?g1) (board ?g1) code)"
      unfolding s st using Cons.prems(3) dj by auto
    have "prisoner_count (prisoners (capture_loop ?g1 sc gs)) sc
        + int (length (stones_of (size_n g) (board (capture_loop ?g1 sc gs)) code))
      = prisoner_count (prisoners ?g1) sc + int (length (stones_of (size_n g) (board ?g1) code))"
      using Cons.IH [OF w1 dg r] by (simp only: s)
    also have "\<dots> = prisoner_count (prisoners g) sc + int (length a)
        + int (length (stones_of (size_n g) (board ?g1) code))"
      by (simp add: capture_group_def prisoner_count_dd_add)
    also have "\<dots> = prisoner_count (prisoners g) sc
        + int (length (stones_of (size_n g) (board g) code))"
      using count_remove_group [OF Cons.prems(1) sub assms(4) da] by (simp add: capture_group_def)
    finally show ?thesis using True by simp
  next
    case False
    with Cons show ?thesis by simp
  qed
qed

subsection \<open>The phases of \<^verbatim>\<open>place_stone\<close>\<close>

lemma placed_fields:
  "size_n (placed g col row) = size_n g
   \<and> black_turn (placed g col row) = black_turn g
   \<and> prisoners (placed g col row) = prisoners g
   \<and> board (placed g col row) = set_cell (board g) col row (own_code g)"
  by (simp add: placed_def put_stone_def snapshot_def own_code_def)

lemma placed_wf:
  "wf_board (size_n g) (board g) \<Longrightarrow> wf_board (size_n g) (board (placed g col row))"
  by (simp add: placed_fields wf_set_cell)

lemma resolved_eq:
  "resolved g col row =
     capture_loop (placed g col row) (own_name g) (get_stone_groups (placed g col row) (other_name g))"
  by (simp add: resolved_def capture_stones_def Let_def placed_fields own_name_def other_name_def)

lemma resolved_wf:
  "wf_board (size_n g) (board g) \<Longrightarrow> wf_board (size_n g) (board (resolved g col row))"
  using capture_loop_wf [of "placed g col row"] placed_wf [of g col row]
  by (simp add: resolved_eq placed_fields)

lemma other_group_cells:
  assumes "grp \<in> set (get_stone_groups (placed g col row) (other_name g))" and "p \<in> set grp"
  shows "in_bounds (size_n g) (fst p) (snd p)
     \<and> cell (board (placed g col row)) (fst p) (snd p) = other_code g"
  using group_cells [OF assms] by (simp add: placed_fields other_name_def other_code_def)

lemma other_group_stones:
  assumes "grp \<in> set (get_stone_groups (placed g col row) (other_name g))"
  shows "set grp \<subseteq> set (stones_of (size_n g) (board (placed g col row)) (other_code g))"
proof
  fix p assume "p \<in> set grp"
  from other_group_cells [OF assms this]
  have "(fst p, snd p) \<in> set (stones_of (size_n g) (board (placed g col row)) (other_code g))"
    by (simp only: in_stones_of)
  then show "p \<in> set (stones_of (size_n g) (board (placed g col row)) (other_code g))" by simp
qed

lemma resolved_keeps:
  assumes "wf_board (size_n g) (board g)" and "in_bounds (size_n g) x y"
    and "cell (board (placed g col row)) x y \<noteq> other_code g"
  shows "cell (board (resolved g col row)) x y = cell (board (placed g col row)) x y"
  unfolding resolved_eq
proof (rule capture_loop_outside)
  show "wf_board (size_n (placed g col row)) (board (placed g col row))"
    using assms(1) by (simp add: placed_fields wf_set_cell)
  show "\<forall>a \<in> set (get_stone_groups (placed g col row) (other_name g)).
      \<forall>p \<in> set a. in_bounds (size_n (placed g col row)) (fst p) (snd p)"
    using other_group_cells [of _ g col row] by (simp add: placed_fields)
  show "in_bounds (size_n (placed g col row)) x y" using assms(2) by (simp add: placed_fields)
  show "\<forall>a \<in> set (get_stone_groups (placed g col row) (other_name g)). (x, y) \<notin> set a"
    using other_group_cells [of _ g col row "(x, y)"] assms(3) by auto
qed

lemma other_code_nonzero: "other_code g \<noteq> 0"
  by (simp add: other_code_def)

lemma resolved_count:
  assumes "wf_board (size_n g) (board g)"
  shows "prisoner_count (prisoners (resolved g col row)) (own_name g)
     = prisoner_count (prisoners g) (own_name g) + captured g col row"
proof -
  have "prisoner_count (prisoners (resolved g col row)) (own_name g)
      + int (length (stones_of (size_n (placed g col row)) (board (resolved g col row)) (other_code g)))
    = prisoner_count (prisoners (placed g col row)) (own_name g)
      + int (length (stones_of (size_n (placed g col row)) (board (placed g col row)) (other_code g)))"
    unfolding resolved_eq
  proof (rule capture_loop_count)
    show "wf_board (size_n (placed g col row)) (board (placed g col row))"
      using assms by (simp add: placed_fields wf_set_cell)
    show "distinct (concat (get_stone_groups (placed g col row) (other_name g)))"
      by (rule groups_distinct)
    show "\<forall>a \<in> set (get_stone_groups (placed g col row) (other_name g)).
        set a \<subseteq> set (stones_of (size_n (placed g col row)) (board (placed g col row)) (other_code g))"
      using other_group_stones [of _ g col row] by (simp add: placed_fields)
    show "other_code g \<noteq> 0" by (rule other_code_nonzero)
  qed
  then show ?thesis by (simp add: captured_def placed_fields)
qed

lemma prisoner_count_dd_get: "prisoner_count (snd (dd_get d k)) k' = prisoner_count d k'"
  by (auto simp: prisoner_count_def dd_get_def map_add_def split: option.splits)

lemma calculate_score_counts:
  "fst (calculate_score g)
     = score_of (prisoner_count (prisoners g) ''black'') (prisoner_count (prisoners g) ''white'')"
proof -
  have "fst (calculate_score g)
      = score_of (prisoner_count (prisoners g) ''black'')
          (prisoner_count (snd (dd_get (prisoners g) ''black'')) ''white'')"
    by (simp add: calculate_score_def prisoner_count_def split: prod.splits)
  then show ?thesis by (simp add: prisoner_count_dd_get)
qed

lemma round53_small: "\<bar>m\<bar> < 2 ^ 53 \<Longrightarrow> round53 m = m"
  by (simp add: round53_def)

lemma score_of_exact:
  assumes "\<bar>2 * w + 13\<bar> < 2 ^ 53"
  shows "score_of b w = Inr \<lparr> black_score = b, white_score = of_int w + 13 / 2 \<rparr>"
proof -
  have w: "\<bar>w\<bar> < 2 ^ 53" using assms by simp
  have "(2 :: int) ^ 53 \<le> 2 ^ 1024" by (rule power_increasing) simp_all
  with w have n: "\<not> 2 ^ 1024 \<le> \<bar>w\<bar>" by linarith
  have "add_komi w = of_int w + 13 / 2"
    by (simp add: add_komi_def round53_small [OF assms])
  with n show ?thesis
    by (simp add: score_of_def float_of_int_def round53_small [OF w])
qed

text \<open>
  Beyond that bound the sum is rounded: White's count \<open>2 ^ 52 - 1\<close> gives the score
  \<open>2 ^ 52 + 6\<close>, not \<open>2 ^ 52 + 11 / 2\<close>; and a count of \<open>2 ^ 1024\<close> raises.
\<close>

lemma bit_length_bounds:
  "2 ^ k \<le> n \<Longrightarrow> n < 2 ^ Suc k \<Longrightarrow> bit_length n = Suc k"
proof (induction k arbitrary: n)
  case 0
  then have "n = 1" by simp
  then show ?case by (simp add: bit_length.simps [of "Suc 0"] bit_length.simps [of 0])
next
  case (Suc k)
  have "2 ^ k \<le> n div 2" "n div 2 < 2 ^ Suc k" using Suc.prems by auto
  then have "bit_length (n div 2) = Suc k" by (rule Suc.IH)
  moreover have "n \<noteq> 0" using Suc.prems by auto
  ultimately show ?case by (subst bit_length.simps) simp
qed

lemma round53_tie_up: "round53 (2 ^ 53 + 11) = 2 ^ 53 + 12"
proof -
  have "bit_length (nat \<bar>2 ^ 53 + 11 :: int\<bar>) = Suc 53"
    by (rule bit_length_bounds) simp_all
  then show ?thesis by (simp add: round53_def Let_def)
qed

lemma score_of_rounded:
  "score_of b (2 ^ 52 - 1) = Inr \<lparr> black_score = b, white_score = 2 ^ 52 + 6 \<rparr>"
proof -
  have w: "round53 (2 ^ 52 - 1) = 2 ^ 52 - 1" by (simp add: round53_def)
  have "(2 :: int) ^ 53 \<le> 2 ^ 1024" by (rule power_increasing) simp_all
  then have n: "\<not> (2 :: int) ^ 1024 \<le> \<bar>2 ^ 52 - 1\<bar>" by simp
  have "add_komi (2 ^ 52 - 1) = 2 ^ 52 + 6"
    using round53_tie_up by (simp add: add_komi_def)
  with w n show ?thesis by (simp add: score_of_def float_of_int_def)
qed

lemma round53_power: "round53 (2 ^ 1024) = 2 ^ 1024"
proof -
  have "bit_length (nat \<bar>2 ^ 1024 :: int\<bar>) = Suc 1024"
    by (rule bit_length_bounds) simp_all
  moreover have "\<not> \<bar>2 ^ 1024 :: int\<bar> < 2 ^ 53"
    using power_increasing [of 53 1024 "2 :: int"] by simp
  moreover have "(2 :: int) ^ 1024 = 2 ^ 52 * 2 ^ 972" by (simp add: power_add [symmetric])
  ultimately show ?thesis by (simp add: round53_def Let_def)
qed

lemma score_of_overflow: "score_of b (2 ^ 1024) = Inl OverflowError"
  unfolding score_of_def float_of_int_def round53_power by simp

lemma capture_loop_other_count:
  "k \<noteq> sc \<Longrightarrow>
   prisoner_count (prisoners (capture_loop g sc gs)) k = prisoner_count (prisoners g) k"
  by (induction gs arbitrary: g) (simp_all add: capture_group_def prisoner_count_dd_add)

lemma resolved_other_count:
  "prisoner_count (prisoners (resolved g col row)) (other_name g)
     = prisoner_count (prisoners g) (other_name g)"
  by (simp add: resolved_eq capture_loop_other_count placed_fields own_name_def other_name_def)

lemma wf_game_GoGame: "wf_game (GoGame n)"
  by (simp add: wf_game_def wf_board_def GoGame_def list_all_iff)

lemma wf_game_place_stone:
  assumes "wf_game g"
  shows "wf_game (snd (place_stone g col row))"
proof (cases "is_valid_move g col row")
  case False
  with assms show ?thesis by (simp add: place_stone_invalid)
next
  case True
  have w: "wf_board (size_n g) (board g)" using assms by (simp add: wf_game_def)
  show ?thesis
    using assms resolved_wf [OF w, of col row] wf_set_cell [of "size_n g" "board (resolved g col row)"]
    by (simp add: place_stone_valid [OF True] wf_game_def resolved_frame)
qed

lemma wf_game_undo_move:
  assumes "wf_game g"
  shows "wf_game (undo_move g)"
proof (cases "history g = []")
  case True
  with assms show ?thesis by (simp add: undo_move_def)
next
  case False
  then have "last (history g) \<in> set (history g)" "set (butlast (history g)) \<subseteq> set (history g)"
    by (auto dest: in_set_butlastD)
  with assms False show ?thesis
    by (auto simp: undo_move_def wf_game_def list_all_iff)
qed

lemma wf_game_play: "wf_game g \<Longrightarrow> wf_game (play g ms)"
proof (induction ms arbitrary: g)
  case Nil
  then show ?case by simp
next
  case (Cons m ms)
  obtain col row where m: "m = (col, row)" by (cases m)
  show ?case
    using Cons.IH [OF wf_game_place_stone [OF Cons.prems, of col row]] by (simp add: m)
qed

section \<open>Example positions\<close>

lemma ko_position_reached: "play_all (GoGame 5) ko_moves = Some ko_position"
  by code_simp

lemma ko_position_board:
  "board ko_position =
     [[0, 1, 0, 0, 0], [1, 2, 1, 0, 0], [2, 0, 2, 0, 0], [0, 2, 0, 0, 0], [0, 0, 0, 0, 0]]"
  by code_simp

lemma ko_recapture_valid: "is_valid_move ko_position 2 1"
  by code_simp

lemma ko_recapture_violation: "is_ko_violation (resolved ko_position 2 1)"
  by code_simp

lemma eye_position_reached: "play_all (GoGame 5) eye_moves = Some eye_position"
  by code_simp

lemma ko_position_wf: "wf_game ko_position"
  by (simp add: ko_position_def wf_game_play wf_game_GoGame)

lemma ko_position_black: "black_turn ko_position"
  by code_simp

lemma ko_recapture_captured: "captured ko_position 2 1 = 1"
  by code_simp

lemma eye_position_wf: "wf_game eye_position"
  by (simp add: eye_position_def wf_game_play wf_game_GoGame)

lemma eye_move_valid: "is_valid_move eye_position 1 1"
  by code_simp

lemma eye_move_no_ko: "\<not> is_ko_violation (resolved eye_position 1 1)"
  by code_simp

lemma corner_position_reached: "play_all (GoGame 5) corner_moves = Some corner_position"
  by code_simp

lemma corner_position_wf: "wf_game corner_position"
  by (simp add: corner_position_def wf_game_play wf_game_GoGame)

lemma corner_move_valid: "is_valid_move corner_position 0 2"
  by code_simp

lemma corner_move_group:
  "filter (has_no_liberties (placed corner_position 0 2))
     (get_stone_groups (placed corner_position 0 2) (other_name corner_position)) = [[(0, 0), (0, 1)]]"
  by code_simp

lemma corner_move_accepted: "fst (place_stone corner_position 0 2)"
  by code_simp

section \<open>The claims of the specification\<close>

text \<open>
  Claim C1. In the ko position Black's recapture at (2,1) returns False. The board after
  the call is not the board after White's capture: the white stone on (1,1), captured
  during the attempt, is gone, and only the black stone on (2,1) has been taken back.
\<close>

theorem ko_recapture_board:
  "fst (place_stone ko_position 2 1) = False
   \<and> board ko_position =
       [[0, 1, 0, 0, 0], [1, 2, 1, 0, 0], [2, 0, 2, 0, 0], [0, 2, 0, 0, 0], [0, 0, 0, 0, 0]]
   \<and> board (snd (place_stone ko_position 2 1)) =
       [[0, 1, 0, 0, 0], [1, 0, 1, 0, 0], [2, 0, 2, 0, 0], [0, 2, 0, 0, 0], [0, 0, 0, 0, 0]]"
  by code_simp

text \<open>
  Claim C2. For a call that passes \<open>is_valid_move\<close>, \<open>place_stone\<close> returns False
  exactly when the previous-boards log, with the snapshot of this attempt appended, has at
  least two entries and the board after placement and captures equals its entry two from
  the end. In that case only the placed cell is set back to empty (every other cell is as
  the captures left it, and the prisoner counts are those after the captures), the turn is
  not flipped, and the history and the log keep the snapshot pushed for the attempt.
\<close>

theorem ko_detection:
  assumes "wf_game g" and "is_valid_move g col row"
  shows "(fst (place_stone g col row) = False \<longleftrightarrow>
            2 \<le> length (prev_boards g @ [board g])
            \<and> board (resolved g col row)
                = (prev_boards g @ [board g]) ! (length (prev_boards g @ [board g]) - 2))
     \<and> (\<not> fst (place_stone g col row) \<longrightarrow>
          board (snd (place_stone g col row)) = set_cell (board (resolved g col row)) col row 0
          \<and> cell (board (snd (place_stone g col row))) col row = 0
          \<and> (\<forall>x y. in_bounds (size_n g) x y \<and> (x, y) \<noteq> (col, row) \<longrightarrow>
                cell (board (snd (place_stone g col row))) x y = cell (board (resolved g col row)) x y)
          \<and> prisoners (snd (place_stone g col row)) = prisoners (resolved g col row)
          \<and> black_turn (snd (place_stone g col row)) = black_turn g
          \<and> history (snd (place_stone g col row)) = history g @ [(board g, prisoners g)]
          \<and> prev_boards (snd (place_stone g col row)) = prev_boards g @ [board g])"
proof -
  have w: "wf_board (size_n g) (board (resolved g col row))"
    using assms(1) by (simp add: wf_game_def resolved_wf)
  have ib: "in_bounds (size_n g) col row" using assms(2) by (simp add: is_valid_move_iff)
  have c: "cell (set_cell (board (resolved g col row)) col row 0) x y
      = (if x = col \<and> y = row then 0 else cell (board (resolved g col row)) x y)"
    if "in_bounds (size_n g) x y" for x y
    using cell_set_cell [OF w ib that] .
  have k: "is_ko_violation (resolved g col row) \<longleftrightarrow>
      2 \<le> length (prev_boards g @ [board g])
      \<and> board (resolved g col row)
          = (prev_boards g @ [board g]) ! (length (prev_boards g @ [board g]) - 2)"
    by (simp add: is_ko_violation_def resolved_frame)
  show ?thesis
    unfolding k [symmetric] using c ib
    by (simp add: place_stone_valid [OF assms(2)] resolved_frame)
qed

text \<open>
  The recapture in the ko position: the white stone on (1,1), captured during the
  attempt, stays off the board.
\<close>

theorem ko_detection_witness:
  "wf_game ko_position \<and> is_valid_move ko_position 2 1
   \<and> fst (place_stone ko_position 2 1) = False
   \<and> cell (board ko_position) 1 1 = 2
   \<and> cell (board (snd (place_stone ko_position 2 1))) 1 1 = 0
   \<and> cell (board (snd (place_stone ko_position 2 1))) 2 1 = 0
   \<and> black_turn (snd (place_stone ko_position 2 1)) = black_turn ko_position
   \<and> history (snd (place_stone ko_position 2 1))
       = history ko_position @ [(board ko_position, prisoners ko_position)]"
proof -
  note t = ko_detection [OF ko_position_wf ko_recapture_valid]
  have k: "2 \<le> length (prev_boards ko_position @ [board ko_position])
      \<and> board (resolved ko_position 2 1)
          = (prev_boards ko_position @ [board ko_position])
              ! (length (prev_boards ko_position @ [board ko_position]) - 2)"
    by code_simp
  with t have f: "fst (place_stone ko_position 2 1) = False" by blast
  have b: "in_bounds (size_n ko_position) 1 1 \<and> (1, 1) \<noteq> (2 :: int, 1 :: int)" by code_simp
  have r: "cell (board (resolved ko_position 2 1)) 1 1 = 0" by code_simp
  have o: "cell (board ko_position) 1 1 = 2" by code_simp
  from t f b have "cell (board (snd (place_stone ko_position 2 1))) 1 1
      = cell (board (resolved ko_position 2 1)) 1 1" by blast
  with r have 1: "cell (board (snd (place_stone ko_position 2 1))) 1 1 = 0" by simp
  from t f have 2: "cell (board (snd (place_stone ko_position 2 1))) 2 1 = 0" by blast
  from t f have 3: "black_turn (snd (place_stone ko_position 2 1)) = black_turn ko_position"
    by blast
  from t f have 4: "history (snd (place_stone ko_position 2 1))
      = history ko_position @ [(board ko_position, prisoners ko_position)]" by blast
  from ko_position_wf ko_recapture_valid f o 1 2 3 4 show ?thesis by blast
qed

text \<open>
  Claim C3. The eight moves to the ko position are all accepted and the history holds
  eight snapshots; the rejected recapture leaves a ninth.
\<close>

theorem ko_rejection_history:
  "play_all (GoGame 5) ko_moves = Some ko_position
   \<and> length (history ko_position) = 8
   \<and> fst (place_stone ko_position 2 1) = False
   \<and> length (history (snd (place_stone ko_position 2 1))) = 9"
  by code_simp

text \<open>
  Claim C4. When, after the placement, exactly one opponent group has no liberties, a
  call that returns True adds the size K of that group to the prisoner count of the
  placing colour, the group consists of K different cells which all held an opponent
  stone and are empty afterwards, and every other cell of the board is as it was after
  the placement.
\<close>

theorem capture_single_group:
  assumes "wf_game g" and "is_valid_move g col row"
    and "filter (has_no_liberties (placed g col row))
           (get_stone_groups (placed g col row) (other_name g)) = [grp]"
    and "fst (place_stone g col row)"
  shows "prisoner_count (prisoners (snd (place_stone g col row))) (own_name g)
           = prisoner_count (prisoners g) (own_name g) + int (length grp)
     \<and> card (set grp) = length grp \<and> grp \<noteq> []
     \<and> (\<forall>p \<in> set grp. cell (board (placed g col row)) (fst p) (snd p) = other_code g
            \<and> cell (board (snd (place_stone g col row))) (fst p) (snd p) = 0)
     \<and> (\<forall>x y. in_bounds (size_n g) x y \<and> (x, y) \<notin> set grp \<longrightarrow>
            cell (board (snd (place_stone g col row))) x y = cell (board (placed g col row)) x y)"
proof -
  let ?p = "placed g col row"
  let ?gs = "get_stone_groups ?p (other_name g)"
  have wp: "wf_board (size_n ?p) (board ?p)"
    using assms(1) by (simp add: wf_game_def placed_fields wf_set_cell)
  have "grp \<in> set (filter (has_no_liberties ?p) ?gs)" using assms(3) by simp
  then have mem: "grp \<in> set ?gs" by simp
  have ibs: "\<forall>a \<in> set ?gs. \<forall>q \<in> set a. in_bounds (size_n ?p) (fst q) (snd q)"
    using other_group_cells [of _ g col row] by (simp add: placed_fields)
  then have ib: "\<forall>q \<in> set grp. in_bounds (size_n ?p) (fst q) (snd q)" using mem by blast
  have r: "resolved g col row = capture_group ?p (own_name g) grp"
    unfolding resolved_eq by (rule capture_loop_one [OF wp ibs assms(3)])
  have b: "board (snd (place_stone g col row)) = board (resolved g col row)"
    and pr: "prisoners (snd (place_stone g col row)) = prisoners (resolved g col row)"
    using assms(4) by (simp_all add: place_stone_valid [OF assms(2)] split: if_splits)
  have c: "cell (board (resolved g col row)) x y = (if (x, y) \<in> set grp then 0 else cell (board ?p) x y)"
    if "in_bounds (size_n g) x y" for x y
    using capture_group_cell [OF wp ib, of x y "own_name g"] that by (simp add: r placed_fields)
  have 1: "prisoner_count (prisoners (snd (place_stone g col row))) (own_name g)
      = prisoner_count (prisoners g) (own_name g) + int (length grp)"
    by (simp add: pr r capture_group_def prisoner_count_dd_add placed_fields)
  have 2: "card (set grp) = length grp"
    using group_distinct [OF mem] by (rule distinct_card)
  have 3: "grp \<noteq> []"
    using mem by (auto simp: get_stone_groups_def dest: components_nonempty)
  have 4: "cell (board ?p) (fst q) (snd q) = other_code g
      \<and> cell (board (snd (place_stone g col row))) (fst q) (snd q) = 0" if "q \<in> set grp" for q
    using other_group_cells [OF mem that] c [of "fst q" "snd q"] that by (simp add: b)
  have 5: "cell (board (snd (place_stone g col row))) x y = cell (board ?p) x y"
    if "in_bounds (size_n g) x y \<and> (x, y) \<notin> set grp" for x y
    using c [of x y] that by (simp add: b)
  from 1 2 3 4 5 show ?thesis by blast
qed

text \<open>Black on (0,2) captures the two white stones in the corner.\<close>

theorem capture_single_group_witness:
  "wf_game corner_position \<and> is_valid_move corner_position 0 2
   \<and> filter (has_no_liberties (placed corner_position 0 2))
        (get_stone_groups (placed corner_position 0 2) (other_name corner_position))
       = [[(0, 0), (0, 1)]]
   \<and> fst (place_stone corner_position 0 2)
   \<and> prisoner_count (prisoners (snd (place_stone corner_position 0 2))) (own_name corner_position)
       = prisoner_count (prisoners corner_position) (own_name corner_position) + 2
   \<and> cell (board (snd (place_stone corner_position 0 2))) 0 0 = 0
   \<and> cell (board (snd (place_stone corner_position 0 2))) 0 1 = 0"
  using capture_single_group
      [OF corner_position_wf corner_move_valid corner_move_group corner_move_accepted]
    corner_position_wf corner_move_valid corner_move_group corner_move_accepted
  by simp

text \<open>
  Claim C5. For every group, \<open>has_no_liberties\<close> returns True exactly when every
  in-bounds neighbour, in the four directions, of every coordinate of the group holds a
  non-empty cell; a neighbour off the board is skipped.
\<close>

theorem has_no_liberties_iff:
  "has_no_liberties g grp \<longleftrightarrow>
     (\<forall>(x, y) \<in> set grp. \<forall>(dx, dy) \<in> set directions.
        in_bounds (size_n g) (x + dx) (y + dy) \<longrightarrow> cell (board g) (x + dx) (y + dy) \<noteq> 0)"
proof (induction grp)
  case Nil
  show ?case by simp
next
  case (Cons p grp)
  obtain x y where p: "p = (x, y)" by (cases p)
  have "\<not> empty_neighbour g x y \<longleftrightarrow>
      (\<forall>(dx, dy) \<in> set directions.
        in_bounds (size_n g) (x + dx) (y + dy) \<longrightarrow> cell (board g) (x + dx) (y + dy) \<noteq> 0)"
    unfolding empty_neighbour_iff by blast
  moreover have "has_no_liberties g (p # grp) \<longleftrightarrow>
      \<not> empty_neighbour g x y \<and> has_no_liberties g grp"
    by (simp add: p)
  moreover have "(\<forall>q \<in> set (p # grp). P q) \<longleftrightarrow> P (x, y) \<and> (\<forall>q \<in> set grp. P q)" for P
    by (simp add: p)
  ultimately show ?case using Cons.IH by (simp only: prod.case)
qed

text \<open>
  On a 1x1 board the only stone has no neighbour on the board and so no liberty; on an
  empty 2x2 board the corner has an empty neighbour.
\<close>

theorem has_no_liberties_iff_witness:
  "has_no_liberties (GoGame 1) [(0, 0)] \<and> \<not> has_no_liberties (GoGame 2) [(0, 0)]"
  using has_no_liberties_iff [of "GoGame 1" "[(0, 0)]"]
    has_no_liberties_iff [of "GoGame 2" "[(0, 0)]"]
  by (simp add: directions_def in_bounds_def GoGame_def cell_def)

text \<open>
  Claim C6. A call whose coordinates are in bounds and name an empty cell, and whose
  result is no ko violation, returns True whatever the liberties of the new stone, and the
  new stone is on the board afterwards: there is no suicide check. No call removes a
  stone of the placing colour that was on the board before it.
\<close>

theorem self_capture_permitted:
  assumes "wf_game g" and "is_valid_move g col row"
  shows "(\<not> is_ko_violation (resolved g col row) \<longrightarrow>
            fst (place_stone g col row)
            \<and> cell (board (snd (place_stone g col row))) col row = own_code g)
     \<and> (\<forall>x y. in_bounds (size_n g) x y \<and> cell (board g) x y = own_code g \<longrightarrow>
            cell (board (snd (place_stone g col row))) x y = own_code g)"
proof -
  have w: "wf_board (size_n g) (board g)" using assms(1) by (simp add: wf_game_def)
  have wr: "wf_board (size_n g) (board (resolved g col row))" using w by (rule resolved_wf)
  have ib: "in_bounds (size_n g) col row" and e: "cell (board g) col row = 0"
    using assms(2) by (simp_all add: is_valid_move_iff)
  have ne: "own_code g \<noteq> other_code g" "own_code g \<noteq> 0"
    by (simp_all add: own_code_def other_code_def)
  have p: "cell (board (placed g col row)) x y = (if x = col \<and> y = row then own_code g else cell (board g) x y)"
    if "in_bounds (size_n g) x y" for x y
    using cell_set_cell [OF w ib that] by (simp add: placed_fields)
  have k: "cell (board (resolved g col row)) x y = own_code g"
    if "in_bounds (size_n g) x y" and "cell (board (placed g col row)) x y = own_code g" for x y
    using resolved_keeps [OF w that(1), of col row] that(2) ne by simp
  have 1: "cell (board (resolved g col row)) col row = own_code g"
    using k [OF ib] p [OF ib] by simp
  have 2: "cell (board (resolved g col row)) x y = own_code g \<and> (x, y) \<noteq> (col, row)"
    if "in_bounds (size_n g) x y \<and> cell (board g) x y = own_code g" for x y
    using k [of x y] p [of x y] that e ne by auto
  have 3: "cell (board (snd (place_stone g col row))) x y = own_code g"
    if t: "in_bounds (size_n g) x y \<and> cell (board g) x y = own_code g" for x y
  proof (cases "is_ko_violation (resolved g col row)")
    case True
    then have "board (snd (place_stone g col row)) = set_cell (board (resolved g col row)) col row 0"
      by (simp add: place_stone_valid [OF assms(2)])
    then show ?thesis
      using cell_set_cell [OF wr ib, of x y 0] 2 [OF t] t by auto
  next
    case False
    then have "board (snd (place_stone g col row)) = board (resolved g col row)"
      by (simp add: place_stone_valid [OF assms(2)])
    then show ?thesis using 2 [OF t] by simp
  qed
  have 4: "fst (place_stone g col row)
      \<and> cell (board (snd (place_stone g col row))) col row = own_code g"
    if "\<not> is_ko_violation (resolved g col row)"
    using that 1 by (simp add: place_stone_valid [OF assms(2)])
  from 3 4 show ?thesis by blast
qed

text \<open>
  Black plays into the point (1,1) surrounded by four white stones: the call returns
  True and the black stone stays, without a liberty.
\<close>

theorem self_capture_permitted_witness:
  "wf_game eye_position \<and> is_valid_move eye_position 1 1
   \<and> \<not> is_ko_violation (resolved eye_position 1 1)
   \<and> fst (place_stone eye_position 1 1)
   \<and> own_code eye_position = 1
   \<and> cell (board (snd (place_stone eye_position 1 1))) 1 1 = 1
   \<and> has_no_liberties (snd (place_stone eye_position 1 1)) [(1, 1)]"
proof -
  have o: "own_code eye_position = 1" by code_simp
  have l: "has_no_liberties (snd (place_stone eye_position 1 1)) [(1, 1)]" by code_simp
  show ?thesis
    using self_capture_permitted [OF eye_position_wf eye_move_valid]
      eye_position_wf eye_move_valid eye_move_no_ko o l
    by simp
qed

text \<open>
  Claim C7. After any sequence of N calls of \<open>place_stone\<close> that all return True on a
  fresh engine, N calls of \<open>undo_move\<close> give back the all-empty board, prisoner counts
  zero for both colours and Black to move (and an empty history).
\<close>

theorem undo_restores_initial:
  assumes "play_all (GoGame n) ms = Some g'"
  shows "board ((undo_move ^^ length ms) g') = replicate n (replicate n 0)
     \<and> prisoner_count (prisoners ((undo_move ^^ length ms) g')) ''black'' = 0
     \<and> prisoner_count (prisoners ((undo_move ^^ length ms) g')) ''white'' = 0
     \<and> black_turn ((undo_move ^^ length ms) g') = True
     \<and> history ((undo_move ^^ length ms) g') = []"
  by (simp add: undo_play_all [OF assms] GoGame_def prisoner_count_def dd_get_def)

text \<open>The eight moves that lead to the ko position, one of them a capture, and eight undos.\<close>

theorem undo_restores_initial_witness:
  "play_all (GoGame 5) ko_moves = Some ko_position
   \<and> prisoner_count (prisoners ko_position) ''white'' = 1
   \<and> board ((undo_move ^^ 8) ko_position) = replicate 5 (replicate 5 0)
   \<and> prisoner_count (prisoners ((undo_move ^^ 8) ko_position)) ''black'' = 0
   \<and> prisoner_count (prisoners ((undo_move ^^ 8) ko_position)) ''white'' = 0
   \<and> black_turn ((undo_move ^^ 8) ko_position) = True"
proof -
  have c: "prisoner_count (prisoners ko_position) ''white'' = 1" by code_simp
  have l: "length ko_moves = 8" by (simp add: ko_moves_def)
  show ?thesis
    using c ko_position_reached undo_restores_initial [OF ko_position_reached]
    by (simp add: l)
qed

text \<open>
  Claim C8. The turn flips exactly when \<open>place_stone\<close> returns True and stays when it
  returns False. A call whose coordinates are out of bounds or name an occupied cell
  returns False and leaves the whole state as it was (board, turn, prisoners, history and
  the previous-boards log), so any number of repetitions leaves it as it was and the next
  call returns False again.
\<close>

theorem place_stone_turn_and_rejection:
  "black_turn (snd (place_stone g col row)) =
     (if fst (place_stone g col row) then \<not> black_turn g else black_turn g)
   \<and> (\<not> in_bounds (size_n g) col row \<or> cell (board g) col row \<noteq> 0 \<longrightarrow>
        place_stone g col row = (False, g)
        \<and> ((\<lambda>s. snd (place_stone s col row)) ^^ k) g = g
        \<and> fst (place_stone (((\<lambda>s. snd (place_stone s col row)) ^^ k) g) col row) = False)"
proof -
  have "place_stone g col row = (False, g)
        \<and> ((\<lambda>s. snd (place_stone s col row)) ^^ k) g = g
        \<and> fst (place_stone (((\<lambda>s. snd (place_stone s col row)) ^^ k) g) col row) = False"
    if "\<not> is_valid_move g col row"
    using that by (simp add: repeat_rejected place_stone_invalid)
  then show ?thesis
    using place_stone_turn [of g col row] by (auto simp: is_valid_move_iff)
qed

text \<open>
  An accepted first move flips the turn; in the ko position the occupied point (0,1) and
  the point (5,0) off the board are rejected without a change, three times over.
\<close>

theorem place_stone_turn_and_rejection_witness:
  "fst (place_stone (GoGame 5) 2 2) \<and> \<not> black_turn (snd (place_stone (GoGame 5) 2 2))
   \<and> cell (board ko_position) 0 1 \<noteq> 0
   \<and> place_stone ko_position 0 1 = (False, ko_position)
   \<and> ((\<lambda>s. snd (place_stone s 0 1)) ^^ 3) ko_position = ko_position
   \<and> \<not> in_bounds (size_n ko_position) 5 0
   \<and> place_stone ko_position 5 0 = (False, ko_position)
   \<and> ((\<lambda>s. snd (place_stone s 5 0)) ^^ 3) ko_position = ko_position"
proof -
  have a: "fst (place_stone (GoGame 5) 2 2)" by code_simp
  have t: "black_turn (GoGame 5)" by (simp add: GoGame_def)
  have b: "cell (board ko_position) 0 1 \<noteq> 0" by code_simp
  have c: "\<not> in_bounds (size_n ko_position) 5 0" by code_simp
  show ?thesis
    using a t b c
      place_stone_turn_and_rejection [of "GoGame 5" 2 2 0]
      place_stone_turn_and_rejection [of ko_position 0 1 3]
      place_stone_turn_and_rejection [of ko_position 5 0 3]
    by simp
qed

text \<open>
  Claim C9. When a call is rejected as a ko violation after its capture phase took
  k > 0 opponent stones off the board, the prisoner count of the placing colour after the
  call is its value before the call plus k, and \<open>calculate_score\<close> called next computes
  its result from that count: Black's score is Black's count, White's score the double sum
  of White's count and 6.5, which is the exact sum whenever twice the count plus 13 is
  below \<open>2 ^ 53\<close> in magnitude.
\<close>

theorem ko_rejection_keeps_prisoners:
  assumes "wf_game g" and "is_valid_move g col row"
    and "is_ko_violation (resolved g col row)" and "0 < captured g col row"
  shows "fst (place_stone g col row) = False
     \<and> prisoner_count (prisoners (snd (place_stone g col row))) (own_name g)
         = prisoner_count (prisoners g) (own_name g) + captured g col row
     \<and> fst (calculate_score (snd (place_stone g col row)))
         = (if black_turn g
            then score_of (prisoner_count (prisoners g) ''black'' + captured g col row)
                   (prisoner_count (prisoners g) ''white'')
            else score_of (prisoner_count (prisoners g) ''black'')
                   (prisoner_count (prisoners g) ''white'' + captured g col row))
     \<and> (black_turn g \<and> \<bar>2 * prisoner_count (prisoners g) ''white'' + 13\<bar> < 2 ^ 53 \<longrightarrow>
          fst (calculate_score (snd (place_stone g col row)))
            = Inr \<lparr> black_score = prisoner_count (prisoners g) ''black'' + captured g col row,
                    white_score = of_int (prisoner_count (prisoners g) ''white'') + 13 / 2 \<rparr>)
     \<and> (\<not> black_turn g
          \<and> \<bar>2 * (prisoner_count (prisoners g) ''white'' + captured g col row) + 13\<bar> < 2 ^ 53 \<longrightarrow>
          fst (calculate_score (snd (place_stone g col row)))
            = Inr \<lparr> black_score = prisoner_count (prisoners g) ''black'',
                    white_score
                      = of_int (prisoner_count (prisoners g) ''white'' + captured g col row)
                        + 13 / 2 \<rparr>)"
proof -
  let ?s = "snd (place_stone g col row)"
  have w: "wf_board (size_n g) (board g)" using assms(1) by (simp add: wf_game_def)
  have pr: "prisoners ?s = prisoners (resolved g col row)"
    using assms(3) by (simp add: place_stone_valid [OF assms(2)])
  have f: "fst (place_stone g col row) = False"
    using assms(3) by (simp add: place_stone_valid [OF assms(2)])
  have own: "prisoner_count (prisoners ?s) (own_name g)
      = prisoner_count (prisoners g) (own_name g) + captured g col row"
    unfolding pr by (rule resolved_count [OF w])
  have other: "prisoner_count (prisoners ?s) (other_name g)
      = prisoner_count (prisoners g) (other_name g)"
    unfolding pr by (rule resolved_other_count)
  have sc: "fst (calculate_score ?s)
      = (if black_turn g
         then score_of (prisoner_count (prisoners g) ''black'' + captured g col row)
                (prisoner_count (prisoners g) ''white'')
         else score_of (prisoner_count (prisoners g) ''black'')
                (prisoner_count (prisoners g) ''white'' + captured g col row))"
  proof (cases "black_turn g")
    case True
    with own other show ?thesis
      by (simp add: calculate_score_counts own_name_def other_name_def)
  next
    case False
    with own other show ?thesis
      by (simp add: calculate_score_counts own_name_def other_name_def)
  qed
  from f own sc show ?thesis
    by (simp add: score_of_exact)
qed

text \<open>
  The recapture in the ko position on Black's turn: one white stone is taken, Black's
  count goes from 0 to 1 and the score is 1 for Black and 1 + 6.5 for White.
\<close>

theorem ko_rejection_keeps_prisoners_witness:
  "wf_game ko_position \<and> is_valid_move ko_position 2 1
   \<and> is_ko_violation (resolved ko_position 2 1) \<and> captured ko_position 2 1 = 1
   \<and> black_turn ko_position
   \<and> prisoner_count (prisoners ko_position) ''black'' = 0
   \<and> prisoner_count (prisoners ko_position) ''white'' = 1
   \<and> fst (place_stone ko_position 2 1) = False
   \<and> prisoner_count (prisoners (snd (place_stone ko_position 2 1))) ''black'' = 1
   \<and> fst (calculate_score (snd (place_stone ko_position 2 1)))
       = Inr \<lparr> black_score = 1, white_score = 15 / 2 \<rparr>"
proof -
  have p: "0 < captured ko_position 2 1" by (simp add: ko_recapture_captured)
  have b: "prisoner_count (prisoners ko_position) ''black'' = 0" by code_simp
  have c: "prisoner_count (prisoners ko_position) ''white'' = 1" by code_simp
  have o: "own_name ko_position = ''black''"
    using ko_position_black by (simp add: own_name_def)
  note t = ko_rejection_keeps_prisoners
    [OF ko_position_wf ko_recapture_valid ko_recapture_violation p]
  from t have 1: "fst (place_stone ko_position 2 1) = False" by blast
  from t have "prisoner_count (prisoners (snd (place_stone ko_position 2 1))) (own_name ko_position)
      = prisoner_count (prisoners ko_position) (own_name ko_position) + captured ko_position 2 1"
    by blast
  then have 2: "prisoner_count (prisoners (snd (place_stone ko_position 2 1))) ''black'' = 1"
    by (simp add: o b ko_recapture_captured)
  have "black_turn ko_position
      \<and> \<bar>2 * prisoner_count (prisoners ko_position) ''white'' + 13\<bar> < 2 ^ 53"
    using ko_position_black by (simp add: c)
  with t have "fst (calculate_score (snd (place_stone ko_position 2 1)))
      = Inr \<lparr> black_score = prisoner_count (prisoners ko_position) ''black''
                  + captured ko_position 2 1,
              white_score = of_int (prisoner_count (prisoners ko_position) ''white'') + 13 / 2 \<rparr>"
    by blast
  then have 3: "fst (calculate_score (snd (place_stone ko_position 2 1)))
      = Inr \<lparr> black_score = 1, white_score = 15 / 2 \<rparr>"
    by (simp add: b c ko_recapture_captured)
  from ko_position_wf ko_recapture_valid ko_recapture_violation ko_recapture_captured
    ko_position_black b c 1 2 3
  show ?thesis by blast
qed

text \<open>
  Claim C10. When a call is rejected as a ko violation and \<open>undo_move\<close> is called next,
  the board and the prisoner counts are those from before the rejected call, and the turn
  is the opposite of the turn before the rejected call.
\<close>

theorem undo_after_ko_rejection:
  assumes "is_valid_move g col row" and "is_ko_violation (resolved g col row)"
  shows "fst (place_stone g col row) = False
     \<and> board (undo_move (snd (place_stone g col row))) = board g
     \<and> prisoners (undo_move (snd (place_stone g col row))) = prisoners g
     \<and> history (undo_move (snd (place_stone g col row))) = history g
     \<and> black_turn (undo_move (snd (place_stone g col row))) = (\<not> black_turn g)"
  using assms by (simp add: place_stone_valid undo_move_def resolved_frame)

theorem undo_after_ko_rejection_witness:
  "is_valid_move ko_position 2 1 \<and> is_ko_violation (resolved ko_position 2 1)
   \<and> black_turn ko_position
   \<and> fst (place_stone ko_position 2 1) = False
   \<and> board (undo_move (snd (place_stone ko_position 2 1))) = board ko_position
   \<and> prisoners (undo_move (snd (place_stone ko_position 2 1))) = prisoners ko_position
   \<and> black_turn (undo_move (snd (place_stone ko_position 2 1))) = False"
proof -
  have t: "black_turn ko_position" by code_simp
  show ?thesis
    using t ko_recapture_valid ko_recapture_violation
      undo_after_ko_rejection [OF ko_recapture_valid ko_recapture_violation]
    by simp
qed

end
